theory Spec2Isabelle
  imports Main "HOL-Library.Sublist"
begin

section \<open>Strings and the two string primitives the formatter uses\<close>

text \<open>
  A JavaScript string is a finite sequence of code units. The formatter only concatenates
  strings, measures their length, searches one string in another (\<open>indexOf\<close>) and cuts
  them by index (\<open>substring\<close>), so the primitives and the formatter are modelled over
  lists of any element type, and what is proved of them uses nothing of the elements but
  their equality. The style table instantiates them with \<open>string\<close>, the codes being
  ASCII. An index is a natural number; the result \<open>-1\<close> of \<open>indexOf\<close> is
  \<open>None\<close>, so the test \<open>~index\<close> of the source is "the result is \<open>Some\<close>".
\<close>

text \<open>\<open>search xs pat k\<close>: the first position at which \<open>pat\<close> starts in \<open>xs\<close>,
  counted from \<open>k\<close>. The empty pattern is found at once, as in JavaScript.\<close>

fun search :: "'a list \<Rightarrow> 'a list \<Rightarrow> nat \<Rightarrow> nat option" where
  "search [] pat k = (if pat = [] then Some k else None)"
| "search (x # xs) pat k = (if prefix pat (x # xs) then Some k else search xs pat (Suc k))"

text \<open>\<open>String.prototype.indexOf(searchString, position)\<close>: the position is clamped to
  the length of the string, the search runs from there to the right.\<close>

definition indexOf :: "'a list \<Rightarrow> 'a list \<Rightarrow> nat \<Rightarrow> nat option" where
  "indexOf s pat position = (let start = min position (length s) in search (drop start s) pat start)"

text \<open>\<open>String.prototype.substring(start, end)\<close>: both indices are clamped to the length,
  swapped when \<open>start > end\<close>; a missing \<open>end\<close> is the length.\<close>

definition substring :: "'a list \<Rightarrow> nat \<Rightarrow> nat option \<Rightarrow> 'a list" where
  "substring s start end_opt =
     (let len = length s;
          a = min start len;
          b = (case end_opt of None \<Rightarrow> len | Some e \<Rightarrow> min e len);
          from = min a b;
          to = max a b
      in take (to - from) (drop from s))"

section \<open>The formatter and its replacement loop\<close>

text \<open>
  The body of the \<open>do ... while (~index)\<close> loop of \<open>replaceClose\<close>, on the loop
  variables \<open>result\<close>, \<open>cursor\<close> and \<open>index\<close>. The loop runs its body once before
  the first test. It returns the final \<open>result\<close> and \<open>cursor\<close>; \<open>None\<close> is a loop
  that never ends.
\<close>

partial_function (option) replaceClose_loop ::
  "'a list \<Rightarrow> 'a list \<Rightarrow> 'a list \<Rightarrow> 'a list \<Rightarrow> nat \<Rightarrow> nat \<Rightarrow> ('a list \<times> nat) option" where
  "replaceClose_loop string close replace result cursor index =
     (let result' = result @ substring string cursor (Some index) @ replace;
          cursor' = index + length close
      in case indexOf string close cursor' of
           Some index' \<Rightarrow> replaceClose_loop string close replace result' cursor' index'
         | None \<Rightarrow> Some (result', cursor'))"

declare replaceClose_loop.simps [code]

definition replaceClose :: "'a list \<Rightarrow> 'a list \<Rightarrow> 'a list \<Rightarrow> nat \<Rightarrow> 'a list option" where
  "replaceClose string close replace index =
     (case replaceClose_loop string close replace [] 0 index of
        None \<Rightarrow> None
      | Some (result, cursor) \<Rightarrow> Some (result @ substring string cursor None))"

text \<open>
  \<open>formatter(open, close, replace = open)\<close>: the optional third parameter is an
  \<open>option\<close>, \<open>None\<close> taking the default. Every call in the source passes strings,
  so \<open>open\<close> is a string, and the input is a string (the coercion \<open>"" + input\<close> is
  the identity on strings). The result is \<open>None\<close> when the loop of
  \<open>replaceClose\<close> never ends.
\<close>

definition formatter :: "'a list \<Rightarrow> 'a list \<Rightarrow> 'a list option \<Rightarrow> 'a list \<Rightarrow> 'a list option" where
  "formatter open close replace_opt input =
     (let replace = (case replace_opt of None \<Rightarrow> open | Some r \<Rightarrow> r);
          string = input;
          index = indexOf string close (length open)
      in case index of
           Some i \<Rightarrow>
             (case replaceClose string close replace i of
                None \<Rightarrow> None
              | Some body \<Rightarrow> Some (open @ body @ close))
         | None \<Rightarrow> Some (open @ string @ close))"

section \<open>The style table\<close>

abbreviation ESC :: char where
  "ESC \<equiv> CHR 0x1B"

text \<open>The property names of \<open>ColorFunctions\<close> that hold a formatter.\<close>

datatype style =
    reset | bold | dim | italic | underline | inverse | hidden | strikethrough
  | black | red | green | yellow | blue | magenta | cyan | white | gray
  | bgBlack | bgRed | bgGreen | bgYellow | bgBlue | bgMagenta | bgCyan | bgWhite
  | blackBright | redBright | greenBright | yellowBright | blueBright | magentaBright
  | cyanBright | whiteBright
  | bgBlackBright | bgRedBright | bgGreenBright | bgYellowBright | bgBlueBright
  | bgMagentaBright | bgCyanBright | bgWhiteBright

text \<open>The arguments \<open>f\<close> is called with for each property, in the order of the source.\<close>

fun codes :: "style \<Rightarrow> string \<times> string \<times> string option" where
  "codes reset = (ESC # ''[0m'', ESC # ''[0m'', None)"
| "codes bold = (ESC # ''[1m'', ESC # ''[22m'', Some (ESC # ''[22m'' @ ESC # ''[1m''))"
| "codes dim = (ESC # ''[2m'', ESC # ''[22m'', Some (ESC # ''[22m'' @ ESC # ''[2m''))"
| "codes italic = (ESC # ''[3m'', ESC # ''[23m'', None)"
| "codes underline = (ESC # ''[4m'', ESC # ''[24m'', None)"
| "codes inverse = (ESC # ''[7m'', ESC # ''[27m'', None)"
| "codes hidden = (ESC # ''[8m'', ESC # ''[28m'', None)"
| "codes strikethrough = (ESC # ''[9m'', ESC # ''[29m'', None)"
| "codes black = (ESC # ''[30m'', ESC # ''[39m'', None)"
| "codes red = (ESC # ''[31m'', ESC # ''[39m'', None)"
| "codes green = (ESC # ''[32m'', ESC # ''[39m'', None)"
| "codes yellow = (ESC # ''[33m'', ESC # ''[39m'', None)"
| "codes blue = (ESC # ''[34m'', ESC # ''[39m'', None)"
| "codes magenta = (ESC # ''[35m'', ESC # ''[39m'', None)"
| "codes cyan = (ESC # ''[36m'', ESC # ''[39m'', None)"
| "codes white = (ESC # ''[37m'', ESC # ''[39m'', None)"
| "codes gray = (ESC # ''[90m'', ESC # ''[39m'', None)"
| "codes bgBlack = (ESC # ''[40m'', ESC # ''[49m'', None)"
| "codes bgRed = (ESC # ''[41m'', ESC # ''[49m'', None)"
| "codes bgGreen = (ESC # ''[42m'', ESC # ''[49m'', None)"
| "codes bgYellow = (ESC # ''[43m'', ESC # ''[49m'', None)"
| "codes bgBlue = (ESC # ''[44m'', ESC # ''[49m'', None)"
| "codes bgMagenta = (ESC # ''[45m'', ESC # ''[49m'', None)"
| "codes bgCyan = (ESC # ''[46m'', ESC # ''[49m'', None)"
| "codes bgWhite = (ESC # ''[47m'', ESC # ''[49m'', None)"
| "codes blackBright = (ESC # ''[90m'', ESC # ''[39m'', None)"
| "codes redBright = (ESC # ''[91m'', ESC # ''[39m'', None)"
| "codes greenBright = (ESC # ''[92m'', ESC # ''[39m'', None)"
| "codes yellowBright = (ESC # ''[93m'', ESC # ''[39m'', None)"
| "codes blueBright = (ESC # ''[94m'', ESC # ''[39m'', None)"
| "codes magentaBright = (ESC # ''[95m'', ESC # ''[39m'', None)"
| "codes cyanBright = (ESC # ''[96m'', ESC # ''[39m'', None)"
| "codes whiteBright = (ESC # ''[97m'', ESC # ''[39m'', None)"
| "codes bgBlackBright = (ESC # ''[100m'', ESC # ''[49m'', None)"
| "codes bgRedBright = (ESC # ''[101m'', ESC # ''[49m'', None)"
| "codes bgGreenBright = (ESC # ''[102m'', ESC # ''[49m'', None)"
| "codes bgYellowBright = (ESC # ''[103m'', ESC # ''[49m'', None)"
| "codes bgBlueBright = (ESC # ''[104m'', ESC # ''[49m'', None)"
| "codes bgMagentaBright = (ESC # ''[105m'', ESC # ''[49m'', None)"
| "codes bgCyanBright = (ESC # ''[106m'', ESC # ''[49m'', None)"
| "codes bgWhiteBright = (ESC # ''[107m'', ESC # ''[49m'', None)"

definition open_of :: "style \<Rightarrow> string" where
  "open_of st = fst (codes st)"

definition close_of :: "style \<Rightarrow> string" where
  "close_of st = fst (snd (codes st))"

text \<open>The replacement a style's formatter works with: the third argument, or the open code.\<close>

definition replace_of :: "style \<Rightarrow> string" where
  "replace_of st = (case snd (snd (codes st)) of None \<Rightarrow> open_of st | Some r \<Rightarrow> r)"

text \<open>
  The object \<open>createColors\<close> returns: the flag, and one function per style name. With
  \<open>enabled\<close> false, \<open>f\<close> is \<open>() => String\<close>, so every property is \<open>String\<close>, the
  identity on strings.
\<close>

record ColorFunctions =
  isColorSupported_field :: bool
  style_fn :: "style \<Rightarrow> string \<Rightarrow> string option"

definition createColors :: "bool \<Rightarrow> ColorFunctions" where
  "createColors enabled =
     (let f = (if enabled then formatter else (\<lambda>open close replace_opt. Some))
      in \<lparr> isColorSupported_field = enabled,
           style_fn = (\<lambda>st. case codes st of (open, close, replace_opt) \<Rightarrow> f open close replace_opt) \<rparr>)"

section \<open>The capability detector\<close>

text \<open>
  The detector is one expression over \<open>process\<close>, written with \<open>!\<close>, \<open>||\<close>,
  \<open>&&\<close> and \<open>===\<close> on values that may be \<open>undefined\<close>. The values it meets are
  \<open>undefined\<close>, booleans and strings; \<open>||\<close> and \<open>&&\<close> return one of their
  operands, not a boolean.
\<close>

datatype jsval = Undefined | Bool bool | Str string

fun truthy :: "jsval \<Rightarrow> bool" where
  "truthy Undefined = False"
| "truthy (Bool b) = b"
| "truthy (Str s) = (s \<noteq> [])"

definition js_not :: "jsval \<Rightarrow> jsval" where
  "js_not v = Bool (\<not> truthy v)"

definition js_or :: "jsval \<Rightarrow> jsval \<Rightarrow> jsval" where
  "js_or a b = (if truthy a then a else b)"

definition js_and :: "jsval \<Rightarrow> jsval \<Rightarrow> jsval" where
  "js_and a b = (if truthy a then b else a)"

definition strict_eq :: "jsval \<Rightarrow> jsval \<Rightarrow> jsval" where
  "strict_eq a b = Bool (a = b)"

definition strict_ne :: "jsval \<Rightarrow> jsval \<Rightarrow> jsval" where
  "strict_ne a b = Bool (a \<noteq> b)"

text \<open>
  The parts of the \<open>process\<close> object the detector reads. A property that is absent is
  \<open>None\<close> (or \<open>Undefined\<close> where the detector reads a value). An environment maps
  names to strings.
\<close>

record stdout_obj =
  isTTY :: jsval

record process_obj =
  p_argv :: "string list option"
  p_env :: "(string \<rightharpoonup> string) option"
  p_platform :: jsval
  p_stdout :: "stdout_obj option"

text \<open>
  The module reads the global identifier \<open>process\<close>. Where no such identifier is
  declared, reading it throws a \<open>ReferenceError\<close>; where it is declared, its value is
  \<open>undefined\<close> (\<open>None\<close>) or an object.
\<close>

datatype js_error = ReferenceError

datatype process_binding = Undeclared | Declared "process_obj option"

text \<open>\<open>p = process || {}\<close>: the empty object has none of the properties.\<close>

fun p :: "process_binding \<Rightarrow> js_error + process_obj" where
  "p Undeclared = Inl ReferenceError"
| "p (Declared None) =
     Inr \<lparr> p_argv = None, p_env = None, p_platform = Undefined, p_stdout = None \<rparr>"
| "p (Declared (Some obj)) = Inr obj"

text \<open>\<open>argv = p.argv || []\<close>, on the value of \<open>p\<close>.\<close>

definition argv :: "process_obj \<Rightarrow> string list" where
  "argv obj = (case p_argv obj of Some a \<Rightarrow> a | None \<Rightarrow> [])"

text \<open>\<open>env = p.env || {}\<close>, and the property read \<open>env.NAME\<close>.\<close>

definition env :: "process_obj \<Rightarrow> string \<Rightarrow> jsval" where
  "env obj name =
     (case p_env obj of
        None \<Rightarrow> Undefined
      | Some e \<Rightarrow> (case e name of None \<Rightarrow> Undefined | Some v \<Rightarrow> Str v))"

text \<open>\<open>(p.stdout || {}).isTTY\<close>\<close>

definition stdout_isTTY :: "process_obj \<Rightarrow> jsval" where
  "stdout_isTTY obj = (case p_stdout obj of Some out \<Rightarrow> isTTY out | None \<Rightarrow> Undefined)"

text \<open>\<open>argv.includes(flag)\<close>\<close>

definition array_includes :: "string list \<Rightarrow> string \<Rightarrow> jsval" where
  "array_includes xs flag = Bool (flag \<in> set xs)"

text \<open>
  The module evaluates \<open>p\<close>, \<open>argv\<close>, \<open>env\<close> and then the detector's expression; an
  error thrown by the first is the outcome of the whole.
\<close>

definition isColorSupported :: "process_binding \<Rightarrow> js_error + jsval" where
  "isColorSupported process =
     (case p process of
        Inl err \<Rightarrow> Inl err
      | Inr obj \<Rightarrow>
          Inr (js_and
            (js_not (js_or (js_not (js_not (env obj ''NO_COLOR''))) (array_includes (argv obj) ''--no-color'')))
            (js_or
              (js_or
                (js_or
                  (js_or
                    (js_not (js_not (env obj ''FORCE_COLOR'')))
                    (array_includes (argv obj) ''--color''))
                  (strict_eq (p_platform obj) (Str ''win32'')))
                (js_and (stdout_isTTY obj) (strict_ne (env obj ''TERM'') (Str ''dumb''))))
              (js_not (js_not (env obj ''CI''))))))"

text \<open>The table the module exports: \<open>createColors()\<close> with the default argument.\<close>

definition exported :: "process_binding \<Rightarrow> js_error + ColorFunctions" where
  "exported process =
     (case isColorSupported process of
        Inl err \<Rightarrow> Inl err
      | Inr v \<Rightarrow> Inr (createColors (truthy v)))"

section \<open>Notions the properties are stated with\<close>

text \<open>\<open>pat\<close> occurs in \<open>s\<close> at index \<open>j\<close>.\<close>

definition occurs_at :: "'a list \<Rightarrow> 'a list \<Rightarrow> nat \<Rightarrow> bool" where
  "occurs_at s pat j = (j \<le> length s \<and> prefix pat (drop j s))"

text \<open>
  What "replace every occurrence of \<open>pat\<close> by \<open>r\<close>" means, independently of the loop:
  the string is read from the left, each occurrence met is replaced and reading goes on
  behind it. (For the empty pattern nothing is replaced; no style has an empty close.)
\<close>

fun replace_every :: "'a list \<Rightarrow> 'a list \<Rightarrow> 'a list \<Rightarrow> 'a list" where
  "replace_every [] pat r = []"
| "replace_every (x # xs) pat r =
     (if pat \<noteq> [] \<and> prefix pat (x # xs)
      then r @ replace_every (drop (length pat) (x # xs)) pat r
      else x # replace_every xs pat r)"

text \<open>
  The form every code of the table has: the escape character, then characters that are
  not the escape character.
\<close>

definition esc_code :: "string \<Rightarrow> bool" where
  "esc_code c = (case c of [] \<Rightarrow> False | x # xs \<Rightarrow> x = ESC \<and> ESC \<notin> set xs)"

section \<open>Searching: what \<open>indexOf\<close> returns\<close>

lemma search_shift: "search xs pat k = map_option (\<lambda>i. i + k) (search xs pat 0)"
proof (induction xs arbitrary: k)
  case Nil
  then show ?case by simp
next
  case (Cons x xs)
  have "search xs pat (Suc k) = map_option (\<lambda>i. i + Suc k) (search xs pat 0)"
    by (rule Cons.IH)
  moreover have "search xs pat (Suc 0) = map_option (\<lambda>i. i + Suc 0) (search xs pat 0)"
    by (rule Cons.IH)
  ultimately show ?case
    by (simp add: option.map_comp comp_def)
qed

lemma search_Some_iff:
  "search xs pat 0 = Some i \<longleftrightarrow>
     i \<le> length xs \<and> prefix pat (drop i xs) \<and> (\<forall>j<i. \<not> prefix pat (drop j xs))"
proof (induction xs arbitrary: i)
  case Nil
  then show ?case by auto
next
  case (Cons x xs)
  show ?case
  proof (cases "prefix pat (x # xs)")
    case True
    then show ?thesis by (cases i) auto
  next
    case False
    have step: "search (x # xs) pat 0 = map_option Suc (search xs pat 0)"
      using False search_shift [of xs pat "Suc 0"] by simp
    show ?thesis
    proof (cases i)
      case 0
      then show ?thesis using False step by auto
    next
      case (Suc i')
      have "(\<forall>j<Suc i'. \<not> prefix pat (drop j (x # xs))) \<longleftrightarrow> (\<forall>j<i'. \<not> prefix pat (drop j xs))"
        using False by (auto simp: less_Suc_eq_0_disj)
      then show ?thesis
        using Suc step Cons.IH [of i'] by auto
    qed
  qed
qed

lemma search_None_iff:
  "search xs pat 0 = None \<longleftrightarrow> (\<forall>j\<le>length xs. \<not> prefix pat (drop j xs))"
proof (induction xs)
  case Nil
  then show ?case by auto
next
  case (Cons x xs)
  show ?case
  proof (cases "prefix pat (x # xs)")
    case True
    then show ?thesis by auto
  next
    case False
    have step: "search (x # xs) pat 0 = map_option Suc (search xs pat 0)"
      using False search_shift [of xs pat "Suc 0"] by simp
    have "(\<forall>j\<le>length (x # xs). \<not> prefix pat (drop j (x # xs))) \<longleftrightarrow> (\<forall>j\<le>length xs. \<not> prefix pat (drop j xs))"
      (is "?L \<longleftrightarrow> ?R")
    proof
      assume l: ?L
      show ?R
      proof (intro allI impI)
        fix j assume "j \<le> length xs"
        then show "\<not> prefix pat (drop j xs)" using l [rule_format, of "Suc j"] by simp
      qed
    next
      assume r: ?R
      show ?L
      proof (intro allI impI)
        fix j assume "j \<le> length (x # xs)"
        then show "\<not> prefix pat (drop j (x # xs))"
          using r False by (cases j) auto
      qed
    qed
    then show ?thesis using step Cons.IH by simp
  qed
qed

lemma indexOf_Some_iff:
  "indexOf s pat pos = Some i \<longleftrightarrow>
     min pos (length s) \<le> i \<and> occurs_at s pat i \<and>
     (\<forall>j. min pos (length s) \<le> j \<and> j < i \<longrightarrow> \<not> occurs_at s pat j)"
proof -
  let ?m = "min pos (length s)"
  have sh: "indexOf s pat pos = map_option (\<lambda>i. i + ?m) (search (drop ?m s) pat 0)"
    unfolding indexOf_def Let_def by (rule search_shift)
  show ?thesis
  proof
    assume "indexOf s pat pos = Some i"
    then obtain k where k: "search (drop ?m s) pat 0 = Some k" and i: "i = k + ?m"
      using sh by auto
    from k have kl: "k \<le> length (drop ?m s)" and kp: "prefix pat (drop k (drop ?m s))"
      and kn: "\<forall>j<k. \<not> prefix pat (drop j (drop ?m s))"
      by (simp_all add: search_Some_iff)
    have "occurs_at s pat i"
      using kl kp i by (simp add: occurs_at_def add.commute)
    moreover have "\<not> occurs_at s pat j" if "?m \<le> j \<and> j < i" for j
    proof -
      have "j - ?m < k" using that i by linarith
      then have "\<not> prefix pat (drop (j - ?m) (drop ?m s))" using kn by blast
      moreover have "j - ?m + ?m = j" using that by linarith
      ultimately show ?thesis by (simp add: occurs_at_def)
    qed
    ultimately show "?m \<le> i \<and> occurs_at s pat i \<and> (\<forall>j. ?m \<le> j \<and> j < i \<longrightarrow> \<not> occurs_at s pat j)"
      using i by simp
  next
    assume a: "?m \<le> i \<and> occurs_at s pat i \<and> (\<forall>j. ?m \<le> j \<and> j < i \<longrightarrow> \<not> occurs_at s pat j)"
    let ?k = "i - ?m"
    have ik: "?k + ?m = i" using a by linarith
    have "?k \<le> length (drop ?m s)" using a by (auto simp: occurs_at_def intro: diff_le_mono)
    moreover have "prefix pat (drop ?k (drop ?m s))"
      using a ik by (simp add: occurs_at_def)
    moreover have "\<not> prefix pat (drop j (drop ?m s))" if "j < ?k" for j
    proof -
      have "?m \<le> j + ?m \<and> j + ?m < i" using that by linarith
      then have "\<not> occurs_at s pat (j + ?m)" using a by blast
      moreover have "i \<le> length s" using a by (simp add: occurs_at_def)
      then have "j + ?m \<le> length s" using that by linarith
      ultimately show ?thesis by (simp add: occurs_at_def)
    qed
    ultimately have "search (drop ?m s) pat 0 = Some ?k"
      by (simp add: search_Some_iff)
    then show "indexOf s pat pos = Some i" using sh ik by simp
  qed
qed

lemma indexOf_None_iff:
  "indexOf s pat pos = None \<longleftrightarrow> (\<forall>j. min pos (length s) \<le> j \<longrightarrow> \<not> occurs_at s pat j)"
proof -
  let ?m = "min pos (length s)"
  have sh: "indexOf s pat pos = map_option (\<lambda>i. i + ?m) (search (drop ?m s) pat 0)"
    unfolding indexOf_def Let_def by (rule search_shift)
  have "(\<forall>j\<le>length (drop ?m s). \<not> prefix pat (drop j (drop ?m s))) \<longleftrightarrow>
        (\<forall>j. ?m \<le> j \<longrightarrow> \<not> occurs_at s pat j)" (is "?L \<longleftrightarrow> ?R")
  proof
    assume l: ?L
    show ?R
    proof (intro allI impI notI)
      fix j assume m: "?m \<le> j" and o: "occurs_at s pat j"
      have "j - ?m \<le> length (drop ?m s)" using o by (auto simp: occurs_at_def intro: diff_le_mono)
      moreover have "j - ?m + ?m = j" using m by linarith
      ultimately show False using l o by (auto simp: occurs_at_def)
    qed
  next
    assume r: ?R
    show ?L
    proof (intro allI impI notI)
      fix j assume jl: "j \<le> length (drop ?m s)" and pos: "prefix pat (drop j (drop ?m s))"
      have "occurs_at s pat (j + ?m)" using jl pos by (simp add: occurs_at_def)
      then show False using r by (metis le_add2)
    qed
  qed
  then show ?thesis using sh by (simp add: search_None_iff)
qed

lemma occurs_at_length:
  assumes "occurs_at s pat j"
  shows "j + length pat \<le> length s"
proof -
  have "length pat \<le> length (drop j s)"
    using assms by (auto simp: occurs_at_def dest: prefix_length_le)
  moreover have "j \<le> length s" using assms by (simp add: occurs_at_def)
  ultimately show ?thesis by simp
qed

lemma indexOf_drop:
  assumes "pos \<le> length s"
  shows "indexOf (drop pos s) pat 0 = map_option (\<lambda>i. i - pos) (indexOf s pat pos)"
proof -
  have "indexOf s pat pos = map_option (\<lambda>i. i + pos) (search (drop pos s) pat 0)"
    using assms search_shift [of "drop pos s" pat pos] by (simp add: indexOf_def min_absorb1)
  moreover have "indexOf (drop pos s) pat 0 = search (drop pos s) pat 0"
    by (simp add: indexOf_def)
  ultimately show ?thesis by (simp add: option.map_comp comp_def option.map_ident)
qed

section \<open>Replacing: the loop computes \<open>replace_every\<close>\<close>

lemma occurs_at_Cons_Suc: "occurs_at (x # xs) pat (Suc j) = occurs_at xs pat j"
  by (simp add: occurs_at_def)

lemma occurs_at_0: "occurs_at s pat 0 = prefix pat s"
  by (simp add: occurs_at_def)

lemma replace_every_none:
  "(\<forall>j. \<not> occurs_at s pat j) \<Longrightarrow> replace_every s pat r = s"
proof (induction s)
  case Nil
  then show ?case by simp
next
  case (Cons x xs)
  have "\<not> prefix pat (x # xs)"
    using Cons.prems [rule_format, of 0] by (simp add: occurs_at_0)
  moreover have "\<forall>j. \<not> occurs_at xs pat j"
    using Cons.prems [rule_format, of "Suc j" for j] by (simp add: occurs_at_Cons_Suc)
  ultimately show ?case using Cons.IH by simp
qed

lemma replace_every_first:
  assumes "pat \<noteq> []" and "occurs_at s pat k" and "\<forall>j<k. \<not> occurs_at s pat j"
  shows "replace_every s pat r = take k s @ r @ replace_every (drop (k + length pat) s) pat r"
  using assms(2,3)
proof (induction k arbitrary: s)
  case 0
  then have p: "prefix pat s" by (simp add: occurs_at_0)
  with assms(1) obtain x xs where s: "s = x # xs" by (cases s) auto
  show ?case using p assms(1) unfolding s by simp
next
  case (Suc k)
  from Suc.prems(1) obtain x xs where s: "s = x # xs"
    by (cases s) (auto simp: occurs_at_def)
  have np: "\<not> prefix pat (x # xs)"
    using Suc.prems(2) [rule_format, of 0] by (simp add: s occurs_at_0)
  have o: "occurs_at xs pat k" using Suc.prems(1) by (simp add: s occurs_at_Cons_Suc)
  have n: "\<forall>j<k. \<not> occurs_at xs pat j"
  proof (intro allI impI)
    fix j assume "j < k"
    then show "\<not> occurs_at xs pat j"
      using Suc.prems(2) [rule_format, of "Suc j"] by (simp add: s occurs_at_Cons_Suc)
  qed
  show ?case unfolding s using np Suc.IH [OF o n] by simp
qed

lemma replace_every_indexOf_None:
  assumes "indexOf s pat 0 = None"
  shows "replace_every s pat r = s"
  using assms by (intro replace_every_none) (simp add: indexOf_None_iff)

lemma replace_every_indexOf_Some:
  assumes "pat \<noteq> []" and "indexOf s pat 0 = Some k"
  shows "replace_every s pat r = take k s @ r @ replace_every (drop (k + length pat) s) pat r"
  using assms by (intro replace_every_first) (simp_all add: indexOf_Some_iff)

lemma substring_between:
  "cursor \<le> index \<Longrightarrow> index \<le> length s \<Longrightarrow>
     substring s cursor (Some index) = take (index - cursor) (drop cursor s)"
  by (simp add: substring_def Let_def min_absorb1 max_absorb2)

lemma substring_tail: "substring s cursor None = drop cursor s"
  by (cases "cursor \<le> length s") (simp_all add: substring_def Let_def min_def max_def)

lemma replaceClose_loop_total:
  assumes "close \<noteq> []"
  shows "cursor \<le> index \<Longrightarrow> occurs_at string close index \<Longrightarrow>
     \<exists>res cur. replaceClose_loop string close replace result cursor index = Some (res, cur) \<and>
       res @ drop cur string =
         result @ take (index - cursor) (drop cursor string) @ replace @
           replace_every (drop (index + length close) string) close replace"
proof (induction "length string - index" arbitrary: result cursor index rule: less_induct)
  case less
  let ?result' = "result @ substring string cursor (Some index) @ replace"
  let ?cursor' = "index + length close"
  have le: "?cursor' \<le> length string"
    using less.prems(2) by (rule occurs_at_length)
  have sub: "substring string cursor (Some index) = take (index - cursor) (drop cursor string)"
    using less.prems(1) le by (intro substring_between) simp_all
  have dr: "indexOf (drop ?cursor' string) close 0 =
      map_option (\<lambda>i. i - ?cursor') (indexOf string close ?cursor')"
    using le by (rule indexOf_drop)
  show ?case
  proof (cases "indexOf string close ?cursor'")
    case None
    then have "replace_every (drop ?cursor' string) close replace = drop ?cursor' string"
      using dr by (intro replace_every_indexOf_None) simp
    moreover have "replaceClose_loop string close replace result cursor index = Some (?result', ?cursor')"
      by (subst replaceClose_loop.simps) (simp add: None Let_def)
    ultimately show ?thesis using sub by simp
  next
    case (Some index')
    then have ge: "?cursor' \<le> index'" and occ: "occurs_at string close index'"
      using le by (simp_all add: indexOf_Some_iff min_absorb1)
    have "length string - index' < length string - index"
      using ge assms occurs_at_length [OF occ] by (cases close) simp_all
    from less.hyps [OF this ge occ, of ?result']
    obtain res cur where
      run: "replaceClose_loop string close replace ?result' ?cursor' index' = Some (res, cur)"
      and eq: "res @ drop cur string =
         ?result' @ take (index' - ?cursor') (drop ?cursor' string) @ replace @
           replace_every (drop (index' + length close) string) close replace"
      by blast
    have "indexOf (drop ?cursor' string) close 0 = Some (index' - ?cursor')"
      using dr Some by simp
    from replace_every_indexOf_Some [OF assms this, of replace]
    have "replace_every (drop ?cursor' string) close replace =
        take (index' - ?cursor') (drop ?cursor' string) @ replace @
          replace_every (drop (index' + length close) string) close replace"
      using ge by (simp add: add.commute)
    moreover have "replaceClose_loop string close replace result cursor index = Some (res, cur)"
      by (subst replaceClose_loop.simps) (simp add: Some Let_def run)
    ultimately show ?thesis using eq sub by simp
  qed
qed

lemma replaceClose_total:
  assumes "close \<noteq> []" and "occurs_at string close index"
  shows "replaceClose string close replace index =
    Some (take index string @ replace_every (drop index string) close replace)"
proof -
  from replaceClose_loop_total [OF assms(1) _ assms(2), of 0 replace "[]"]
  obtain res cur where
    run: "replaceClose_loop string close replace [] 0 index = Some (res, cur)"
    and eq: "res @ drop cur string =
      take index string @ replace @ replace_every (drop (index + length close) string) close replace"
    by auto
  have "occurs_at (drop index string) close 0"
    using assms(2) by (simp add: occurs_at_def)
  from replace_every_first [OF assms(1) this, of replace]
  have "replace_every (drop index string) close replace =
      replace @ replace_every (drop (index + length close) string) close replace"
    by (simp add: add.commute)
  then show ?thesis
    using run eq by (simp add: replaceClose_def substring_tail)
qed

lemma formatter_total:
  assumes "close \<noteq> []"
  shows "formatter open close replace_opt input =
    Some (case indexOf input close (length open) of
            None \<Rightarrow> open @ input @ close
          | Some i \<Rightarrow>
              open @ take i input @
              replace_every (drop i input) close (case replace_opt of None \<Rightarrow> open | Some r \<Rightarrow> r) @
              close)"
proof (cases "indexOf input close (length open)")
  case None
  then show ?thesis by (simp add: formatter_def)
next
  case (Some i)
  then have "occurs_at input close i" by (simp add: indexOf_Some_iff)
  from replaceClose_total [OF assms this] Some
  show ?thesis by (simp add: formatter_def)
qed

section \<open>The empty close code\<close>

text \<open>
  \<open>indexOf\<close> finds the empty string wherever it looks, so with an empty close code the
  loop of \<open>replaceClose\<close> finds a next occurrence after every step and never ends: the
  formatter built with an empty close code returns on no input. No style of the table has
  an empty close code.
\<close>

lemma indexOf_empty: "indexOf s [] pos = Some (min pos (length s))"
  by (cases "drop (min pos (length s)) s") (simp_all add: indexOf_def Let_def)

lemma replaceClose_loop_Some_nonempty:
  assumes "replaceClose_loop string close replace result cursor index = Some y"
  shows "close \<noteq> []"
proof (rule replaceClose_loop.raw_induct
    [where P = "\<lambda>string close replace result cursor index y. close \<noteq> []", OF _ assms])
  fix loop :: "'a list \<Rightarrow> 'a list \<Rightarrow> 'a list \<Rightarrow> 'a list \<Rightarrow> nat \<Rightarrow> nat \<Rightarrow> ('a list \<times> nat) option"
  fix string close replace result :: "'a list" and cursor index :: nat and y
  assume IH: "\<And>string close replace result cursor index y.
      loop string close replace result cursor index = Some y \<Longrightarrow> close \<noteq> []"
    and step: "(let result' = result @ substring string cursor (Some index) @ replace;
          cursor' = index + length close
      in case indexOf string close cursor' of None \<Rightarrow> Some (result', cursor')
         | Some index' \<Rightarrow> loop string close replace result' cursor' index') = Some y"
  show "close \<noteq> []"
  proof
    assume e: "close = []"
    with step obtain index' where
      "loop string close replace (result @ substring string cursor (Some index) @ replace)
         (index + length close) index' = Some y"
      by (auto simp: Let_def indexOf_empty split: option.splits)
    from IH [OF this] e show False by simp
  qed
qed

lemma formatter_empty_close_diverges: "formatter open [] replace_opt input = None"
proof -
  have "replaceClose input [] r i = None" for r i
    using replaceClose_loop_Some_nonempty [of input "[]" r "[]" 0 i]
    by (cases "replaceClose_loop input [] r [] 0 i") (auto simp: replaceClose_def)
  then show ?thesis by (simp add: formatter_def indexOf_empty)
qed

section \<open>The formatters of the table\<close>

lemma close_of_nonempty: "close_of st \<noteq> []"
  by (cases st) (simp_all add: close_of_def)

lemma style_fn_enabled:
  "style_fn (createColors True) st =
     formatter (open_of st) (close_of st) (snd (snd (codes st)))"
  by (simp add: createColors_def open_of_def close_of_def split: prod.split)

text \<open>Every formatter of the enabled table returns, and this is what it returns.\<close>

lemma style_fn_total:
  "style_fn (createColors True) st input =
     Some (case indexOf input (close_of st) (length (open_of st)) of
             None \<Rightarrow> open_of st @ input @ close_of st
           | Some i \<Rightarrow>
               open_of st @ take i input @
               replace_every (drop i input) (close_of st) (replace_of st) @ close_of st)"
  unfolding style_fn_enabled replace_of_def
  by (rule formatter_total) (rule close_of_nonempty)

section \<open>The disabled table\<close>

text \<open>
  Claim C3. In the table built with \<open>enabled = false\<close> every style function returns its
  input unchanged, whatever the input contains (escape sequences included), the flag of
  the table is false, and \<open>red("x")\<close> is exactly \<open>"x"\<close>.
\<close>

theorem disabled_identity:
  "(\<forall>st s. style_fn (createColors False) st s = Some s) \<and>
   isColorSupported_field (createColors False) = False \<and>
   style_fn (createColors False) red ''x'' = Some ''x''"
  by (simp add: createColors_def split: prod.split)

section \<open>The shape of the output\<close>

text \<open>
  Claim C10. For every style of the enabled table and every input, the formatter returns a
  string that begins with the style's open code and ends with its close code. The
  statement covers both branches, since it holds for every input.
\<close>

theorem output_wrapped_in_open_and_close:
  "\<exists>body. style_fn (createColors True) st input = Some (open_of st @ body @ close_of st)"
  by (cases "indexOf input (close_of st) (length (open_of st))")
     (simp_all add: style_fn_total)

section \<open>Bold and dim\<close>

text \<open>
  Claim C5. With color enabled, \<open>bold(dim("x"))\<close> is
  \<open>ESC[1m ESC[2m x ESC[22m ESC[1m ESC[22m\<close> and \<open>dim(bold("x"))\<close> is
  \<open>ESC[2m ESC[1m x ESC[22m ESC[2m ESC[22m\<close>: the inner style's reset of the intensity
  is followed at once by the outer style's open code.
\<close>

theorem bold_dim_mutual_nesting:
  "Option.bind (style_fn (createColors True) dim ''x'') (style_fn (createColors True) bold) =
     Some (ESC # ''[1m'' @ ESC # ''[2m'' @ ''x'' @ (ESC # ''[22m'' @ ESC # ''[1m'') @ ESC # ''[22m'') \<and>
   Option.bind (style_fn (createColors True) bold ''x'') (style_fn (createColors True) dim) =
     Some (ESC # ''[2m'' @ ESC # ''[1m'' @ ''x'' @ (ESC # ''[22m'' @ ESC # ''[2m'') @ ESC # ''[22m'')"
  by (simp add: style_fn_total indexOf_def open_of_def close_of_def replace_of_def)

section \<open>Aliases among the bright colors\<close>



section \<open>Text without escape characters\<close>

lemma occurs_at_hd_mem:
  assumes "occurs_at s (x # pat) j"
  shows "x \<in> set s"
proof -
  from assms obtain zs where "drop j s = (x # pat) @ zs"
    by (auto simp: occurs_at_def prefix_def)
  then have "x \<in> set (drop j s)" by simp
  then show ?thesis by (rule in_set_dropD)
qed

lemma close_of_ESC: "\<exists>c. close_of st = ESC # c \<and> ESC \<notin> set c"
  by (cases st) (simp_all add: close_of_def)

text \<open>
  Claim C6. For every style of the enabled table and every text without the escape
  character (an escape sequence begins with it), the formatter returns the text between
  the style's open and close codes.
\<close>

theorem plain_text_wrapped:
  assumes "ESC \<notin> set s"
  shows "style_fn (createColors True) st s = Some (open_of st @ s @ close_of st)"
proof -
  obtain c where c: "close_of st = ESC # c"
    using close_of_ESC by blast
  have "\<not> occurs_at s (close_of st) j" for j
    using assms occurs_at_hd_mem [of s ESC c j] by (auto simp: c)
  then have "indexOf s (close_of st) (length (open_of st)) = None"
    by (simp add: indexOf_None_iff)
  then show ?thesis by (simp add: style_fn_total)
qed

theorem plain_text_wrapped_witness:
  "ESC \<notin> set ''Hello'' \<and>
   style_fn (createColors True) red ''Hello'' = Some (ESC # ''[31m'' @ ''Hello'' @ ESC # ''[39m'')"
  using plain_text_wrapped [of "''Hello''" red] by (simp add: open_of_def close_of_def)

section \<open>The value of the detector\<close>

text \<open>
  Where \<open>process\<close> is not declared the module throws; where it is declared and
  \<open>undefined\<close>, the detector works on the empty object and gives false.
\<close>

lemma isColorSupported_Undeclared: "isColorSupported Undeclared = Inl ReferenceError"
  by (simp add: isColorSupported_def)

lemma isColorSupported_undefined: "isColorSupported (Declared None) = Inr (Bool False)"
  by (simp add: isColorSupported_def js_and_def js_or_def js_not_def strict_eq_def
        strict_ne_def array_includes_def env_def argv_def stdout_isTTY_def)

text \<open>
  Claim C2, as stated, fails where a variable is set to the empty string: with
  \<open>FORCE_COLOR\<close> present in the environment with the value \<open>""\<close>, \<open>NO_COLOR\<close>
  absent and no flag, the claim gives true ("\<open>FORCE_COLOR\<close> is set") and the detector
  gives false, since \<open>!!""\<close> is false.
\<close>

theorem empty_FORCE_COLOR_counterexample:
  "map_of [(''FORCE_COLOR'', '''')] ''FORCE_COLOR'' \<noteq> None \<and>
   map_of [(''FORCE_COLOR'', '''')] ''NO_COLOR'' = None \<and>
   isColorSupported
     (Declared (Some \<lparr> p_argv = Some [], p_env = Some (map_of [(''FORCE_COLOR'', '''')]),
             p_platform = Str ''linux'', p_stdout = None \<rparr>)) = Inr (Bool False)"
  by (simp add: isColorSupported_def js_and_def js_or_def js_not_def strict_eq_def
        strict_ne_def array_includes_def env_def argv_def stdout_isTTY_def)

text \<open>
  Claim C2, amended. On a \<open>process\<close> object the detector is false when \<open>NO_COLOR\<close>
  has a non-empty value or the arguments contain \<open>--no-color\<close>, whatever else holds;
  otherwise it is true exactly when \<open>FORCE_COLOR\<close> has a non-empty value, or the
  arguments contain \<open>--color\<close>, or the platform is \<open>win32\<close>, or \<open>isTTY\<close> of the
  output stream is true and \<open>TERM\<close> is not \<open>dumb\<close>, or \<open>CI\<close> has a non-empty
  value. A variable counts (is truthy) exactly when the environment has it with a
  non-empty value. An absent \<open>env\<close> is read as the empty environment and an absent
  \<open>argv\<close> as the empty list, and the detector returns a value there.
\<close>

theorem detector_value:
  "isColorSupported (Declared (Some obj)) =
     Inr (Bool (if truthy (env obj ''NO_COLOR'') \<or> ''--no-color'' \<in> set (argv obj)
           then False
           else (truthy (env obj ''FORCE_COLOR'') \<or>
                 ''--color'' \<in> set (argv obj) \<or>
                 p_platform obj = Str ''win32'' \<or>
                 (truthy (stdout_isTTY obj) \<and> env obj ''TERM'' \<noteq> Str ''dumb'') \<or>
                 truthy (env obj ''CI'')))) \<and>
   (\<forall>name. truthy (env obj name) =
      (\<exists>e v. p_env obj = Some e \<and> e name = Some v \<and> v \<noteq> [])) \<and>
   argv (obj\<lparr>p_argv := None\<rparr>) = [] \<and>
   (\<forall>name. env (obj\<lparr>p_env := None\<rparr>) name = Undefined) \<and>
   isColorSupported (Declared (Some (obj\<lparr>p_env := None\<rparr>))) =
     isColorSupported (Declared (Some (obj\<lparr>p_env := Some Map.empty\<rparr>))) \<and>
   isColorSupported (Declared (Some (obj\<lparr>p_argv := None\<rparr>))) =
     isColorSupported (Declared (Some (obj\<lparr>p_argv := Some []\<rparr>)))"
proof (intro conjI allI)
  show "isColorSupported (Declared (Some obj)) =
     Inr (Bool (if truthy (env obj ''NO_COLOR'') \<or> ''--no-color'' \<in> set (argv obj)
           then False
           else (truthy (env obj ''FORCE_COLOR'') \<or>
                 ''--color'' \<in> set (argv obj) \<or>
                 p_platform obj = Str ''win32'' \<or>
                 (truthy (stdout_isTTY obj) \<and> env obj ''TERM'' \<noteq> Str ''dumb'') \<or>
                 truthy (env obj ''CI''))))"
    by (simp add: isColorSupported_def js_and_def js_or_def js_not_def strict_eq_def
        strict_ne_def array_includes_def)
  show "truthy (env obj name) =
      (\<exists>e v. p_env obj = Some e \<and> e name = Some v \<and> v \<noteq> [])" for name
    by (auto simp: env_def split: option.splits)
  show "argv (obj\<lparr>p_argv := None\<rparr>) = []"
    by (simp add: argv_def)
  show "env (obj\<lparr>p_env := None\<rparr>) name = Undefined" for name
    by (simp add: env_def)
  show "isColorSupported (Declared (Some (obj\<lparr>p_env := None\<rparr>))) =
      isColorSupported (Declared (Some (obj\<lparr>p_env := Some Map.empty\<rparr>)))"
    by (simp add: isColorSupported_def env_def argv_def stdout_isTTY_def)
  show "isColorSupported (Declared (Some (obj\<lparr>p_argv := None\<rparr>))) =
      isColorSupported (Declared (Some (obj\<lparr>p_argv := Some []\<rparr>)))"
    by (simp add: isColorSupported_def env_def argv_def stdout_isTTY_def)
qed

theorem detector_value_witness:
  "isColorSupported
     (Declared (Some \<lparr> p_argv = Some [''node'', ''app.js''], p_env = Some (map_of [(''TERM'', ''xterm'')]),
             p_platform = Str ''linux'', p_stdout = Some \<lparr> isTTY = Bool True \<rparr> \<rparr>)) = Inr (Bool True) \<and>
   isColorSupported
     (Declared (Some \<lparr> p_argv = Some [''node'', ''--no-color''], p_env = Some (map_of [(''FORCE_COLOR'', ''1'')]),
             p_platform = Str ''win32'', p_stdout = Some \<lparr> isTTY = Bool True \<rparr> \<rparr>)) = Inr (Bool False) \<and>
   isColorSupported
     (Declared (Some \<lparr> p_argv = None, p_env = None,
             p_platform = Str ''linux'', p_stdout = None \<rparr>)) = Inr (Bool False)"
  using
    detector_value [of "\<lparr> p_argv = Some [''node'', ''app.js''], p_env = Some (map_of [(''TERM'', ''xterm'')]),
             p_platform = Str ''linux'', p_stdout = Some \<lparr> isTTY = Bool True \<rparr> \<rparr>"]
    detector_value [of "\<lparr> p_argv = Some [''node'', ''--no-color''], p_env = Some (map_of [(''FORCE_COLOR'', ''1'')]),
             p_platform = Str ''win32'', p_stdout = Some \<lparr> isTTY = Bool True \<rparr> \<rparr>"]
    detector_value [of "\<lparr> p_argv = None, p_env = None,
             p_platform = Str ''linux'', p_stdout = None \<rparr>"]
  by (simp add: env_def argv_def stdout_isTTY_def)

section \<open>The contract of a formatter\<close>

lemma indexOf_Some_ge:
  assumes "pat \<noteq> []" and "indexOf s pat pos = Some i"
  shows "pos \<le> i"
proof -
  have m: "min pos (length s) \<le> i" and o: "occurs_at s pat i"
    using assms(2) by (simp_all add: indexOf_Some_iff)
  have "i < length s"
    using occurs_at_length [OF o] assms(1) by (cases pat) simp_all
  with m show ?thesis by simp
qed

lemma indexOf_None_nonempty:
  assumes "pat \<noteq> []"
  shows "indexOf s pat pos = None \<longleftrightarrow> (\<forall>j\<ge>pos. \<not> occurs_at s pat j)"
proof -
  have "\<not> occurs_at s pat j" if "length s \<le> j" for j
  proof
    assume "occurs_at s pat j"
    from occurs_at_length [OF this] assms that show False by (cases pat) simp_all
  qed
  then show ?thesis
    unfolding indexOf_None_iff by (metis min.cobounded1 min_def order_trans)
qed

text \<open>
  Claim C1, amended. For every style of the enabled table: the search for the close code
  starts at index \<open>open.length\<close> of the text and finds the least index \<open>i\<close> at or
  after it where the close code occurs. If there is none, the result is
  \<open>open + text + close\<close>. If there is one, the text before index \<open>i\<close> is kept as it
  is, every occurrence of the close code from index \<open>i\<close> on is replaced with the
  replacement, and the result is wrapped in open and close.
\<close>

theorem formatter_contract:
  "(indexOf text (close_of st) (length (open_of st)) = None \<longleftrightarrow>
      (\<forall>j\<ge>length (open_of st). \<not> occurs_at text (close_of st) j)) \<and>
   (indexOf text (close_of st) (length (open_of st)) = None \<longrightarrow>
      style_fn (createColors True) st text = Some (open_of st @ text @ close_of st)) \<and>
   (\<forall>i. indexOf text (close_of st) (length (open_of st)) = Some i \<longrightarrow>
      length (open_of st) \<le> i \<and> occurs_at text (close_of st) i \<and>
      (\<forall>j. length (open_of st) \<le> j \<and> j < i \<longrightarrow> \<not> occurs_at text (close_of st) j) \<and>
      style_fn (createColors True) st text =
        Some (open_of st @ take i text @
              replace_every (drop i text) (close_of st) (replace_of st) @ close_of st))"
proof (intro conjI allI impI)
  show "indexOf text (close_of st) (length (open_of st)) = None \<longleftrightarrow>
      (\<forall>j\<ge>length (open_of st). \<not> occurs_at text (close_of st) j)"
    by (rule indexOf_None_nonempty) (rule close_of_nonempty)
next
  assume "indexOf text (close_of st) (length (open_of st)) = None"
  then show "style_fn (createColors True) st text = Some (open_of st @ text @ close_of st)"
    by (simp add: style_fn_total)
next
  fix i assume i: "indexOf text (close_of st) (length (open_of st)) = Some i"
  show "length (open_of st) \<le> i"
    using close_of_nonempty i by (rule indexOf_Some_ge)
  then have m: "min (length (open_of st)) (length text) \<le> j" if "length (open_of st) \<le> j" for j
    using that by simp
  show "occurs_at text (close_of st) i"
    using i by (simp add: indexOf_Some_iff)
  show "\<not> occurs_at text (close_of st) j" if "length (open_of st) \<le> j \<and> j < i" for j
    using i that m [of j] by (simp add: indexOf_Some_iff)
  show "style_fn (createColors True) st text =
        Some (open_of st @ take i text @
              replace_every (drop i text) (close_of st) (replace_of st) @ close_of st)"
    using i by (simp add: style_fn_total)
qed

text \<open>
  Claim C1, as stated, fails: an occurrence of the close code that begins before index
  \<open>open.length\<close> is not replaced. For \<open>red\<close> and the text
  \<open>ESC[39m abc ESC[39m\<close> the search finds index 8, and the result keeps the first
  \<open>ESC[39m\<close>; replacing every occurrence would give another string.
\<close>

theorem close_in_prefix_counterexample:
  "indexOf (ESC # ''[39mabc'' @ ESC # ''[39m'') (close_of red) (length (open_of red)) = Some 8 \<and>
   style_fn (createColors True) red (ESC # ''[39mabc'' @ ESC # ''[39m'') =
     Some (ESC # ''[31m'' @ (ESC # ''[39mabc'' @ ESC # ''[31m'') @ ESC # ''[39m'') \<and>
   style_fn (createColors True) red (ESC # ''[39mabc'' @ ESC # ''[39m'') \<noteq>
     Some (open_of red @
           replace_every (ESC # ''[39mabc'' @ ESC # ''[39m'') (close_of red) (replace_of red) @
           close_of red)"
  by (simp add: style_fn_total indexOf_def open_of_def close_of_def replace_of_def)

theorem formatter_contract_witness:
  "indexOf (ESC # ''[39mabc'' @ ESC # ''[39m'' @ ESC # ''[39m'') (close_of red) (length (open_of red)) = Some 8 \<and>
   style_fn (createColors True) red (ESC # ''[39mabc'' @ ESC # ''[39m'' @ ESC # ''[39m'') =
     Some (ESC # ''[31m'' @ (ESC # ''[39mabc'' @ ESC # ''[31m'' @ ESC # ''[31m'') @ ESC # ''[39m'') \<and>
   indexOf ''abc'' (close_of red) (length (open_of red)) = None \<and>
   style_fn (createColors True) red ''abc'' = Some (ESC # ''[31m'' @ ''abc'' @ ESC # ''[39m'')"
proof -
  have a: "indexOf (ESC # ''[39mabc'' @ ESC # ''[39m'' @ ESC # ''[39m'') (close_of red) (length (open_of red)) = Some 8"
    by (simp add: indexOf_def open_of_def close_of_def)
  have b: "indexOf ''abc'' (close_of red) (length (open_of red)) = None"
    by (simp add: indexOf_def open_of_def close_of_def)
  from formatter_contract [of "ESC # ''[39mabc'' @ ESC # ''[39m'' @ ESC # ''[39m''" red] a
  have "style_fn (createColors True) red (ESC # ''[39mabc'' @ ESC # ''[39m'' @ ESC # ''[39m'') =
        Some (open_of red @ take 8 (ESC # ''[39mabc'' @ ESC # ''[39m'' @ ESC # ''[39m'') @
              replace_every (drop 8 (ESC # ''[39mabc'' @ ESC # ''[39m'' @ ESC # ''[39m'')) (close_of red) (replace_of red) @ close_of red)"
    by blast
  moreover from formatter_contract [of "''abc''" red] b
  have "style_fn (createColors True) red ''abc'' = Some (open_of red @ ''abc'' @ close_of red)"
    by blast
  ultimately show ?thesis
    using a b by (simp add: open_of_def close_of_def replace_of_def)
qed

section \<open>Close codes before the search offset\<close>

lemma esc_code_close_of: "esc_code (close_of st)"
  by (cases st) (simp_all add: close_of_def esc_code_def)

lemma occurs_at_nth:
  assumes "occurs_at s pat j" and "k < length pat"
  shows "s ! (j + k) = pat ! k"
proof -
  from assms(1) obtain zs where d: "drop j s = pat @ zs"
    by (auto simp: occurs_at_def prefix_def)
  have "j + k < length s"
    using occurs_at_length [OF assms(1)] assms(2) by simp
  then have "s ! (j + k) = drop j s ! k" by simp
  also have "\<dots> = pat ! k" using assms(2) by (simp add: d nth_append)
  finally show ?thesis .
qed

lemma esc_code_nth:
  assumes "esc_code c"
  shows "c ! 0 = ESC" and "0 < k \<Longrightarrow> k < length c \<Longrightarrow> c ! k \<noteq> ESC"
proof -
  from assms obtain xs where c: "c = ESC # xs" and n: "ESC \<notin> set xs"
    by (auto simp: esc_code_def split: list.splits)
  show "c ! 0 = ESC" by (simp add: c)
  show "c ! k \<noteq> ESC" if "0 < k" "k < length c"
  proof -
    from that obtain k' where k: "k = Suc k'" and "k' < length xs"
      by (cases k) (auto simp: c)
    then have "xs ! k' \<in> set xs" by simp
    with n show ?thesis by (auto simp: c k)
  qed
qed

lemma esc_code_nonempty: "esc_code c \<Longrightarrow> c \<noteq> []"
  by (auto simp: esc_code_def)

lemma esc_no_overlap:
  assumes "esc_code c" and "occurs_at s c j" and "occurs_at s c i" and "j < i"
  shows "j + length c \<le> i"
proof (rule ccontr)
  assume "\<not> j + length c \<le> i"
  then have k: "0 < i - j" "i - j < length c" using assms(4) by simp_all
  have "0 < length c" using assms(1) by (auto simp: esc_code_def)
  then have "s ! (i + 0) = c ! 0" using assms(3) by (intro occurs_at_nth)
  then have "s ! i = ESC" using esc_code_nth(1) [OF assms(1)] by simp
  moreover have "s ! (j + (i - j)) = c ! (i - j)"
    using assms(2) k(2) by (rule occurs_at_nth)
  moreover have "j + (i - j) = i" using assms(4) by simp
  ultimately have "c ! (i - j) = ESC" by simp
  with esc_code_nth(2) [OF assms(1) k] show False by simp
qed

lemma occurs_at_take_append:
  assumes "occurs_at s c j" and "j + length c \<le> i"
  shows "occurs_at (pre @ take i s @ rest) c (length pre + j)"
proof -
  from assms(1) obtain zs where d: "drop j s = c @ zs"
    by (auto simp: occurs_at_def prefix_def)
  have jl: "j \<le> length s" using assms(1) by (simp add: occurs_at_def)
  have "drop j (take i s) = take (i - j) (drop j s)"
    by (simp add: drop_take)
  also have "\<dots> = c @ take (i - j - length c) zs"
    using assms(2) by (simp add: d)
  finally have "prefix c (drop j (take i s) @ rest)" by simp
  moreover have l: "j \<le> length (take i s)" using jl assms(2) by simp
  then have "drop (length pre + j) (pre @ take i s @ rest) = drop j (take i s) @ rest"
    by simp
  moreover have "length pre + j \<le> length (pre @ take i s @ rest)"
    using l by (auto simp: min_def)
  ultimately show ?thesis unfolding occurs_at_def by simp
qed

text \<open>
  Claim C9. For every style of the enabled table: an occurrence of the close code in the
  input that begins before the index \<open>i\<close> the search finds lies in the part of the
  input the formatter copies as it is, so it stands unreplaced in the output, at its index
  shifted by the length of the open code. And if every occurrence of the close code in
  the input begins at an index smaller than \<open>open.length\<close>, the result is
  \<open>open + input + close\<close>.
\<close>

theorem early_close_left_verbatim:
  "(\<forall>i j. indexOf text (close_of st) (length (open_of st)) = Some i \<and> j < i \<and>
          occurs_at text (close_of st) j \<longrightarrow>
      (\<exists>rest. style_fn (createColors True) st text = Some (open_of st @ take i text @ rest) \<and>
              occurs_at (open_of st @ take i text @ rest) (close_of st) (length (open_of st) + j))) \<and>
   ((\<forall>j. occurs_at text (close_of st) j \<longrightarrow> j < length (open_of st)) \<longrightarrow>
      style_fn (createColors True) st text = Some (open_of st @ text @ close_of st))"
proof (intro conjI allI impI)
  fix i j
  assume a: "indexOf text (close_of st) (length (open_of st)) = Some i \<and> j < i \<and>
          occurs_at text (close_of st) j"
  let ?rest = "replace_every (drop i text) (close_of st) (replace_of st) @ close_of st"
  have "occurs_at text (close_of st) i" using a by (simp add: indexOf_Some_iff)
  with a have "j + length (close_of st) \<le> i"
    by (intro esc_no_overlap [OF esc_code_close_of, of "text" st j i]) simp_all
  with a have "occurs_at (open_of st @ take i text @ ?rest) (close_of st) (length (open_of st) + j)"
    by (intro occurs_at_take_append) simp_all
  moreover have "style_fn (createColors True) st text = Some (open_of st @ take i text @ ?rest)"
    using a by (simp add: style_fn_total)
  ultimately show "\<exists>rest. style_fn (createColors True) st text = Some (open_of st @ take i text @ rest) \<and>
              occurs_at (open_of st @ take i text @ rest) (close_of st) (length (open_of st) + j)"
    by blast
next
  assume "\<forall>j. occurs_at text (close_of st) j \<longrightarrow> j < length (open_of st)"
  then have "\<forall>j\<ge>length (open_of st). \<not> occurs_at text (close_of st) j"
    by (meson not_le)
  then have "indexOf text (close_of st) (length (open_of st)) = None"
    using indexOf_None_nonempty [OF close_of_nonempty] by blast
  then show "style_fn (createColors True) st text = Some (open_of st @ text @ close_of st)"
    by (simp add: style_fn_total)
qed

theorem early_close_left_verbatim_witness:
  "style_fn (createColors True) red (ESC # ''[39mabc'' @ ESC # ''[39m'') =
     Some (ESC # ''[31m'' @ (ESC # ''[39mabc'' @ ESC # ''[31m'') @ ESC # ''[39m'') \<and>
   occurs_at (ESC # ''[31m'' @ (ESC # ''[39mabc'' @ ESC # ''[31m'') @ ESC # ''[39m'') (close_of red) 5 \<and>
   style_fn (createColors True) red (ESC # ''[39m'') =
     Some (ESC # ''[31m'' @ ESC # ''[39m'' @ ESC # ''[39m'')"
proof -
  let ?t = "ESC # ''[39mabc'' @ ESC # ''[39m''"
  have i: "indexOf ?t (close_of red) (length (open_of red)) = Some 8"
    by (simp add: indexOf_def open_of_def close_of_def)
  have o: "occurs_at ?t (close_of red) 0"
    by (simp add: occurs_at_def close_of_def)
  have v: "style_fn (createColors True) red ?t =
     Some (ESC # ''[31m'' @ (ESC # ''[39mabc'' @ ESC # ''[31m'') @ ESC # ''[39m'')"
    by (simp add: style_fn_total indexOf_def open_of_def close_of_def replace_of_def)
  from early_close_left_verbatim [of ?t red] i o
  obtain rest where
    r1: "style_fn (createColors True) red ?t = Some (open_of red @ take 8 ?t @ rest)" and
    r2: "occurs_at (open_of red @ take 8 ?t @ rest) (close_of red) (length (open_of red) + 0)"
    by (metis zero_less_numeral)
  from r1 v have "open_of red @ take 8 ?t @ rest =
      ESC # ''[31m'' @ (ESC # ''[39mabc'' @ ESC # ''[31m'') @ ESC # ''[39m''"
    by simp
  from r2 [unfolded this] have "occurs_at (ESC # ''[31m'' @ (ESC # ''[39mabc'' @ ESC # ''[31m'') @ ESC # ''[39m'')
      (close_of red) 5"
    by (simp add: open_of_def eval_nat_numeral)
  with v have 1: "style_fn (createColors True) red ?t =
     Some (ESC # ''[31m'' @ (ESC # ''[39mabc'' @ ESC # ''[31m'') @ ESC # ''[39m'') \<and>
     occurs_at (ESC # ''[31m'' @ (ESC # ''[39mabc'' @ ESC # ''[31m'') @ ESC # ''[39m'') (close_of red) 5"
    by simp
  have "\<forall>j. occurs_at (ESC # ''[39m'') (close_of red) j \<longrightarrow> j < length (open_of red)"
  proof (intro allI impI)
    fix j assume "occurs_at (ESC # ''[39m'') (close_of red) j"
    from occurs_at_length [OF this] show "j < length (open_of red)"
      by (simp add: open_of_def close_of_def)
  qed
  from early_close_left_verbatim [of "ESC # ''[39m''" red, THEN conjunct2, THEN mp, OF this]
  have "style_fn (createColors True) red (ESC # ''[39m'') =
      Some (open_of red @ ESC # ''[39m'' @ close_of red)" by simp
  with 1 show ?thesis by (simp add: open_of_def close_of_def)
qed

section \<open>Consecutive close codes and termination\<close>

lemma replace_every_prefix:
  assumes "c \<noteq> []"
  shows "replace_every (c @ z) c r = r @ replace_every z c r"
proof -
  from assms obtain x xs where c: "c = x # xs" by (cases c) auto
  have "replace_every (x # (xs @ z)) c r = r @ replace_every (drop (length c) (x # (xs @ z))) c r"
    using assms by (simp add: c)
  then show ?thesis by (simp add: c)
qed

lemma esc_code_prefix_append:
  assumes "esc_code c" and "prefix c (x @ c @ y)" and "x \<noteq> []"
  shows "prefix c x"
proof (rule ccontr)
  assume n: "\<not> prefix c x"
  from assms(2) have "prefix c x \<or> (\<exists>us. c = x @ us \<and> prefix us (c @ y))"
    by (simp only: prefix_append)
  with n obtain us where us: "c = x @ us" and p: "prefix us (c @ y)"
    by blast
  from n us have "us \<noteq> []" by auto
  then obtain u us' where u: "us = u # us'" by (cases us) auto
  from assms(1) obtain cs where c: "c = ESC # cs" and e: "ESC \<notin> set cs"
    by (auto simp: esc_code_def split: list.splits)
  from p have "u = ESC" by (simp add: u c)
  from assms(3) obtain a x' where x: "x = a # x'" by (cases x) auto
  from us have "cs = x' @ ESC # us'" by (simp add: c x u \<open>u = ESC\<close>)
  with e show False by simp
qed

lemma replace_every_append_close:
  assumes "esc_code c"
  shows "replace_every (x @ c @ y) c r = replace_every x c r @ r @ replace_every y c r"
proof (induction "length x" arbitrary: x rule: less_induct)
  case less
  have ne: "c \<noteq> []" using assms by (auto simp: esc_code_def)
  show ?case
  proof (cases x)
    case Nil
    then show ?thesis using replace_every_prefix [OF ne] by simp
  next
    case (Cons a x')
    show ?thesis
    proof (cases "prefix c (x @ c @ y)")
      case True
      with assms have "prefix c x" by (rule esc_code_prefix_append) (simp add: Cons)
      then obtain x'' where x'': "x = c @ x''" by (auto simp: prefix_def)
      then have "length x'' < length x" using ne by simp
      from less [OF this] show ?thesis
        using replace_every_prefix [OF ne] by (simp add: x'')
    next
      case False
      then have "\<not> prefix c x" by (auto simp: prefix_def)
      moreover have "length x' < length x" by (simp add: Cons)
      ultimately show ?thesis
        using False less [of x'] by (simp add: Cons)
    qed
  qed
qed

lemma replaceClose_loop_cursor:
  assumes "close \<noteq> []"
  shows "cursor \<le> index \<Longrightarrow> occurs_at string close index \<Longrightarrow>
     replaceClose_loop string close replace result cursor index = Some (res, cur) \<Longrightarrow>
     index + length close \<le> cur \<and> cur \<le> length string"
proof (induction "length string - index" arbitrary: result cursor index rule: less_induct)
  case less
  let ?result' = "result @ substring string cursor (Some index) @ replace"
  let ?cursor' = "index + length close"
  have le: "?cursor' \<le> length string"
    using less.prems(2) by (rule occurs_at_length)
  show ?case
  proof (cases "indexOf string close ?cursor'")
    case None
    then have "replaceClose_loop string close replace result cursor index = Some (?result', ?cursor')"
      by (subst replaceClose_loop.simps) (simp add: Let_def)
    with less.prems(3) le show ?thesis by simp
  next
    case (Some index')
    then have ge: "?cursor' \<le> index'" and occ: "occurs_at string close index'"
      using le by (simp_all add: indexOf_Some_iff min_absorb1)
    have lt: "length string - index' < length string - index"
      using ge assms occurs_at_length [OF occ] by (cases close) simp_all
    have "replaceClose_loop string close replace result cursor index =
        replaceClose_loop string close replace ?result' ?cursor' index'"
      by (subst replaceClose_loop.simps) (simp add: Some Let_def)
    with less.prems(3)
    have "replaceClose_loop string close replace ?result' ?cursor' index' = Some (res, cur)"
      by simp
    from less.hyps [OF lt ge occ this] ge show ?thesis by simp
  qed
qed

text \<open>
  Claim C7, as stated, fails for a pair of close codes at the very start of the text:
  \<open>red(ESC[39m ESC[39m)\<close> replaces the second close code only, since the search
  starts at index \<open>open.length = 5\<close>; and \<open>bgBlackBright\<close>, whose open code is
  longer than its close code, replaces neither of the two.
\<close>

theorem pair_at_start_counterexample:
  "style_fn (createColors True) red (close_of red @ close_of red) =
     Some (ESC # ''[31m'' @ ESC # ''[39m'' @ ESC # ''[31m'' @ ESC # ''[39m'') \<and>
   style_fn (createColors True) red (close_of red @ close_of red) \<noteq>
     Some (open_of red @ replace_of red @ replace_of red @ close_of red) \<and>
   style_fn (createColors True) bgBlackBright (close_of bgBlackBright @ close_of bgBlackBright) =
     Some (ESC # ''[100m'' @ ESC # ''[49m'' @ ESC # ''[49m'' @ ESC # ''[49m'')"
  by (simp add: style_fn_total indexOf_def open_of_def close_of_def replace_of_def)

text \<open>
  Claim C7, amended. For every style of the enabled table the formatter returns on every
  input. If the text holds two consecutive close codes that begin at an index not below
  \<open>open.length\<close>, the search finds a close code at or before the pair, and both codes
  of the pair are replaced, each once, the text between the found index and the pair and
  the text after the pair being treated on their own. The loop of \<open>replaceClose\<close>,
  started with a non-empty close code at an occurrence, ends with its cursor behind that
  occurrence and within the string.
\<close>

theorem consecutive_closes_and_termination:
  "(\<exists>out. style_fn (createColors True) st text = Some out) \<and>
   (length (open_of st) \<le> length a \<longrightarrow>
      (\<exists>i\<le>length a.
         indexOf (a @ close_of st @ close_of st @ b) (close_of st) (length (open_of st)) = Some i \<and>
         style_fn (createColors True) st (a @ close_of st @ close_of st @ b) =
           Some (open_of st @ take i a @ replace_every (drop i a) (close_of st) (replace_of st) @
                 replace_of st @ replace_of st @
                 replace_every b (close_of st) (replace_of st) @ close_of st))) \<and>
   (close \<noteq> [] \<and> cursor \<le> index \<and> occurs_at string close index \<longrightarrow>
      (\<exists>res cur. replaceClose_loop string close replace result cursor index = Some (res, cur) \<and>
                 index + length close \<le> cur \<and> cur \<le> length string))"
proof (intro conjI impI)
  show "\<exists>out. style_fn (createColors True) st text = Some out"
    by (simp add: style_fn_total)
next
  assume le: "length (open_of st) \<le> length a"
  let ?c = "close_of st" and ?r = "replace_of st"
  let ?t = "a @ ?c @ ?c @ b"
  have occ: "occurs_at ?t ?c (length a)"
    by (simp add: occurs_at_def)
  have "indexOf ?t ?c (length (open_of st)) \<noteq> None"
    using occ le indexOf_None_nonempty [OF close_of_nonempty, of ?t st "length (open_of st)"]
    by blast
  then obtain i where i: "indexOf ?t ?c (length (open_of st)) = Some i" by blast
  have "min (length (open_of st)) (length ?t) \<le> length a" using le by simp
  then have ia: "i \<le> length a"
    using i occ unfolding indexOf_Some_iff by (meson not_le)
  have "replace_every (drop i ?t) ?c ?r = replace_every (drop i a @ ?c @ (?c @ b)) ?c ?r"
    using ia by simp
  also have "\<dots> = replace_every (drop i a) ?c ?r @ ?r @ replace_every (?c @ b) ?c ?r"
    by (rule replace_every_append_close [OF esc_code_close_of])
  also have "\<dots> = replace_every (drop i a) ?c ?r @ ?r @ ?r @ replace_every b ?c ?r"
    by (simp only: replace_every_prefix [OF close_of_nonempty])
  finally have "style_fn (createColors True) st ?t =
      Some (open_of st @ take i a @ replace_every (drop i a) ?c ?r @ ?r @ ?r @
            replace_every b ?c ?r @ ?c)"
    using i ia by (simp add: style_fn_total)
  with i ia show "\<exists>i\<le>length a.
         indexOf ?t ?c (length (open_of st)) = Some i \<and>
         style_fn (createColors True) st ?t =
           Some (open_of st @ take i a @ replace_every (drop i a) ?c ?r @ ?r @ ?r @
                 replace_every b ?c ?r @ ?c)"
    by blast
next
  assume a: "close \<noteq> [] \<and> cursor \<le> index \<and> occurs_at string close index"
  then obtain res cur where
    run: "replaceClose_loop string close replace result cursor index = Some (res, cur)"
    using replaceClose_loop_total [of close cursor index string replace result] by blast
  with a replaceClose_loop_cursor [OF _ _ _ run]
  show "\<exists>res cur. replaceClose_loop string close replace result cursor index = Some (res, cur) \<and>
                 index + length close \<le> cur \<and> cur \<le> length string"
    by blast
qed

theorem consecutive_closes_and_termination_witness:
  "style_fn (createColors True) red (''hello'' @ close_of red @ close_of red @ ''!'') =
     Some (ESC # ''[31m'' @ ''hello'' @ ESC # ''[31m'' @ ESC # ''[31m'' @ ''!'' @ ESC # ''[39m'') \<and>
   (\<exists>res cur. replaceClose_loop ''a>b'' ''>'' ''<'' [] 0 1 = Some (res, cur) \<and> 2 \<le> cur)"
proof -
  note inst = consecutive_closes_and_termination
    [where st = red and a = "''hello''" and b = "''!''" and close = "''>''" and cursor = 0
       and index = 1 and string = "''a>b''" and replace = "''<''" and result = "[]"]
  have "length (open_of red) \<le> length ''hello''" by (simp add: open_of_def)
  with inst obtain i where
    "indexOf (''hello'' @ close_of red @ close_of red @ ''!'') (close_of red) (length (open_of red)) = Some i"
    and "style_fn (createColors True) red (''hello'' @ close_of red @ close_of red @ ''!'') =
           Some (open_of red @ take i ''hello'' @
                 replace_every (drop i ''hello'') (close_of red) (replace_of red) @
                 replace_of red @ replace_of red @
                 replace_every ''!'' (close_of red) (replace_of red) @ close_of red)"
    by blast
  then have 1: "style_fn (createColors True) red (''hello'' @ close_of red @ close_of red @ ''!'') =
     Some (ESC # ''[31m'' @ ''hello'' @ ESC # ''[31m'' @ ESC # ''[31m'' @ ''!'' @ ESC # ''[39m'')"
    by (simp add: indexOf_def open_of_def close_of_def replace_of_def)
  have "''>'' \<noteq> [] \<and> (0::nat) \<le> 1 \<and> occurs_at ''a>b'' ''>'' 1"
    by (simp add: occurs_at_def)
  with inst have "\<exists>res cur. replaceClose_loop ''a>b'' ''>'' ''<'' [] 0 1 = Some (res, cur) \<and>
      1 + length ''>'' \<le> cur \<and> cur \<le> length ''a>b''"
    by blast
  then have "\<exists>res cur. replaceClose_loop ''a>b'' ''>'' ''<'' [] 0 1 = Some (res, cur) \<and> 2 \<le> cur"
    by auto
  with 1 show ?thesis by blast
qed

section \<open>Nesting: no close code left inside\<close>

lemma occurs_at_append_left:
  assumes "occurs_at (x @ y) c j" and "j + length c \<le> length x"
  shows "occurs_at x c j"
proof -
  from assms(1) have "prefix c (drop j x @ y)"
    using assms(2) by (simp add: occurs_at_def)
  then have "prefix c (drop j x) \<or> (\<exists>us. c = drop j x @ us \<and> prefix us y)"
    by (simp only: prefix_append)
  then have "prefix c (drop j x)"
  proof
    assume "\<exists>us. c = drop j x @ us \<and> prefix us y"
    then obtain us where us: "c = drop j x @ us" by blast
    then have "length c = length x - j + length us" by simp
    with assms(2) have "length us = 0" by linarith
    then have "us = []" by simp
    with us show ?thesis by simp
  qed
  then show ?thesis using assms(2) by (simp add: occurs_at_def)
qed

lemma occurs_at_append_right:
  assumes "occurs_at (x @ y) c j" and "length x \<le> j"
  shows "occurs_at y c (j - length x)"
  using assms by (auto simp: occurs_at_def)

lemma occurs_at_take:
  assumes "occurs_at (take k t) c j"
  shows "occurs_at t c j"
proof -
  from assms have "prefix c (drop j (take k t))" and "j \<le> length t"
    by (simp_all add: occurs_at_def)
  moreover have "prefix (drop j (take k t)) (drop j t)"
    by (metis append_take_drop_id drop_append prefixI)
  ultimately show ?thesis
    unfolding occurs_at_def using prefix_order.order_trans by blast
qed

lemma esc_no_straddle:
  assumes "esc_code c" and "occurs_at w c j" and "j < m" and "m < length w" and "w ! m = ESC"
  shows "j + length c \<le> m"
proof (rule ccontr)
  assume "\<not> j + length c \<le> m"
  then have k: "0 < m - j" "m - j < length c" using assms(3) by simp_all
  have "w ! (j + (m - j)) = c ! (m - j)"
    using assms(2) k(2) by (rule occurs_at_nth)
  moreover have "j + (m - j) = m" using assms(3) by simp
  ultimately have "c ! (m - j) = ESC" using assms(5) by simp
  with esc_code_nth(2) [OF assms(1) k] show False by simp
qed

lemma occurs_at_ESC:
  assumes "esc_code c" and "occurs_at w c j"
  shows "w ! j = ESC"
proof -
  have "0 < length c" using assms(1) by (auto simp: esc_code_def)
  then have "w ! (j + 0) = c ! 0" using assms(2) by (intro occurs_at_nth)
  then show ?thesis using esc_code_nth(1) [OF assms(1)] by simp
qed

lemma no_close_after_replace:
  assumes c: "esc_code c" and r: "esc_code r" and ncr: "\<not> prefix c r" and nrc: "\<not> prefix r c"
  shows "j < length (replace_every t c r) \<Longrightarrow> \<not> occurs_at (replace_every t c r @ c) c j"
proof (induction "length t" arbitrary: t j rule: less_induct)
  case less
  have cne: "c \<noteq> []" using c by (rule esc_code_nonempty)
  have rne: "r \<noteq> []" using r by (rule esc_code_nonempty)
  show ?case
  proof (cases "indexOf t c 0")
    case None
    then have no: "\<And>i. \<not> occurs_at t c i" by (simp add: indexOf_None_iff)
    have eq: "replace_every t c r = t" using None by (rule replace_every_indexOf_None)
    show ?thesis
    proof
      assume o: "occurs_at (replace_every t c r @ c) c j"
      have jt: "j < length t" using less.prems eq by simp
      have "(t @ c) ! length t = ESC" using c by (auto simp: esc_code_def nth_append split: list.splits)
      moreover have "length t < length (t @ c)" using cne by simp
      ultimately have "j + length c \<le> length t"
        using esc_no_straddle [OF c, of "t @ c" j "length t"] o jt eq by simp
      with o eq have "occurs_at t c j" by (intro occurs_at_append_left [of t c c j]) simp_all
      with no show False by blast
    qed
  next
    case (Some k)
    then have ok: "occurs_at t c k" and mink: "\<And>i. i < k \<Longrightarrow> \<not> occurs_at t c i"
      by (simp_all add: indexOf_Some_iff)
    let ?rest = "drop (k + length c) t"
    let ?R = "replace_every ?rest c r"
    have eq: "replace_every t c r = take k t @ r @ ?R"
      using cne Some by (rule replace_every_indexOf_Some)
    have kl: "k + length c \<le> length t" using ok by (rule occurs_at_length)
    then have lk: "length (take k t) = k" and mk: "min (length t) k = k" by simp_all
    have shorter: "length ?rest < length t" using kl cne by (cases c) simp_all
    let ?w = "take k t @ r @ ?R @ c"
    show ?thesis
    proof
      assume "occurs_at (replace_every t c r @ c) c j"
      then have o: "occurs_at ?w c j" by (simp add: eq)
      have jl: "j < k + length r + length ?R" using less.prems by (simp add: eq mk)
      have wk: "?w ! k = ESC"
        using r by (auto simp: esc_code_def nth_append mk split: list.splits)
      have kw: "k < length ?w" using rne by (simp add: mk)
      consider "j < k" | "j = k" | "k < j" "j < k + length r" | "k + length r \<le> j"
        by linarith
      then show False
      proof cases
        case 1
        then have "j + length c \<le> k"
          using esc_no_straddle [OF c o _ kw wk] by simp
        then have "occurs_at (take k t) c j"
          using o by (intro occurs_at_append_left [of "take k t" "r @ ?R @ c" c j]) (simp_all add: mk)
        then have "occurs_at t c j" by (rule occurs_at_take)
        with mink [OF 1] show False by blast
      next
        case 2
        with o have "prefix c (r @ ?R @ c)" by (simp add: occurs_at_def mk)
        then have "prefix c r \<or> (\<exists>us. c = r @ us \<and> prefix us (?R @ c))"
          by (simp only: prefix_append)
        with ncr nrc show False by (auto simp: prefix_def)
      next
        case 3
        have "j - k < length r" using 3 by linarith
        then have "?w ! j = r ! (j - k)"
          using 3 by (simp add: nth_append mk)
        moreover have "r ! (j - k) \<noteq> ESC"
          using 3 by (intro esc_code_nth(2) [OF r]) simp_all
        moreover have "?w ! j = ESC" using c o by (rule occurs_at_ESC)
        ultimately show False by simp
      next
        case 4
        have "occurs_at ((take k t @ r) @ ?R @ c) c j" using o by simp
        then have "occurs_at (?R @ c) c (j - length (take k t @ r))"
          by (rule occurs_at_append_right) (simp add: mk 4)
        moreover have "j - length (take k t @ r) < length ?R"
          using jl 4 by (simp add: mk)
        ultimately show False
          using less.hyps [OF shorter, of "j - length (take k t @ r)"] by blast
      qed
    qed
  qed
qed

lemma plain_style_codes:
  assumes "A \<noteq> reset" and "A \<noteq> bold" and "A \<noteq> dim"
  shows "esc_code (open_of A)" and "replace_of A = open_of A"
    and "\<not> prefix (close_of A) (open_of A)" and "\<not> prefix (open_of A) (close_of A)"
  using assms by (cases A; simp add: open_of_def close_of_def replace_of_def esc_code_def)+

lemma style_fn_no_early_close:
  assumes "\<forall>j. occurs_at t (close_of A) j \<longrightarrow> length (open_of A) \<le> j"
  shows "style_fn (createColors True) A t =
    Some (open_of A @ replace_every t (close_of A) (replace_of A) @ close_of A)"
proof (cases "indexOf t (close_of A) (length (open_of A))")
  case None
  then have "\<forall>j\<ge>length (open_of A). \<not> occurs_at t (close_of A) j"
    using indexOf_None_nonempty [OF close_of_nonempty] by blast
  with assms have "\<forall>j. \<not> occurs_at t (close_of A) j" by blast
  then have "replace_every t (close_of A) (replace_of A) = t"
    by (rule replace_every_none)
  with None show ?thesis by (simp add: style_fn_total)
next
  case (Some i)
  then have oi: "occurs_at t (close_of A) i"
    and mi: "\<forall>j. min (length (open_of A)) (length t) \<le> j \<and> j < i \<longrightarrow> \<not> occurs_at t (close_of A) j"
    by (simp_all add: indexOf_Some_iff)
  have "\<forall>j<i. \<not> occurs_at t (close_of A) j"
  proof (intro allI impI notI)
    fix j assume "j < i" and o: "occurs_at t (close_of A) j"
    from assms o have "length (open_of A) \<le> j" by blast
    then have "min (length (open_of A)) (length t) \<le> j" by simp
    with mi \<open>j < i\<close> o show False by blast
  qed
  from replace_every_first [OF close_of_nonempty oi this]
  have 1: "replace_every t (close_of A) (replace_of A) =
      take i t @ replace_of A @
      replace_every (drop (i + length (close_of A)) t) (close_of A) (replace_of A)" .
  have "occurs_at (drop i t) (close_of A) 0"
    using oi by (simp add: occurs_at_def)
  from replace_every_first [OF close_of_nonempty this, of "replace_of A"]
  have 2: "replace_every (drop i t) (close_of A) (replace_of A) =
      replace_of A @
      replace_every (drop (i + length (close_of A)) t) (close_of A) (replace_of A)"
    by (simp add: add.commute)
  show ?thesis using Some by (simp add: style_fn_total 1 2)
qed

text \<open>
  Claim C4, amended. Let \<open>A\<close> and \<open>B\<close> be styles of the enabled table and \<open>s\<close> a
  string such that the close code of \<open>A\<close> does not occur in \<open>B(s)\<close> at an index
  below the length of the open code of \<open>A\<close>. Then \<open>A(B(s))\<close> is \<open>B(s)\<close> with
  every occurrence of the close code of \<open>A\<close> rewritten to the replacement of \<open>A\<close>,
  between the open and close codes of \<open>A\<close>. If moreover \<open>A\<close> is not \<open>reset\<close>,
  \<open>bold\<close> or \<open>dim\<close> (their replacements contain the close code), the close code of
  \<open>A\<close> occurs in \<open>A(B(s))\<close> at the very end only.
\<close>

theorem nested_no_raw_close:
  assumes "style_fn (createColors True) B s = Some t"
    and "\<forall>j. occurs_at t (close_of A) j \<longrightarrow> length (open_of A) \<le> j"
  shows "\<exists>out. style_fn (createColors True) A t = Some out \<and>
      out = open_of A @ replace_every t (close_of A) (replace_of A) @ close_of A \<and>
      (A \<noteq> reset \<and> A \<noteq> bold \<and> A \<noteq> dim \<longrightarrow>
         (\<forall>j. occurs_at out (close_of A) j \<longrightarrow> j = length out - length (close_of A)))"
proof -
  let ?c = "close_of A" and ?o = "open_of A" and ?r = "replace_of A"
  let ?body = "replace_every t ?c ?r"
  let ?out = "?o @ ?body @ ?c"
  have run: "style_fn (createColors True) A t = Some ?out"
    by (rule style_fn_no_early_close [OF assms(2)])
  have "j = length ?out - length ?c"
    if plain: "A \<noteq> reset \<and> A \<noteq> bold \<and> A \<noteq> dim" and o: "occurs_at ?out ?c j" for j
  proof -
    from plain have "A \<noteq> reset" and "A \<noteq> bold" and "A \<noteq> dim" by simp_all
    note codes = plain_style_codes [OF this]
    have whole: "?o @ ?body = replace_every (?c @ t) ?c ?o"
      using replace_every_prefix [OF close_of_nonempty] by (simp add: codes(2))
    have "\<not> j < length (replace_every (?c @ t) ?c ?o)"
    proof
      assume "j < length (replace_every (?c @ t) ?c ?o)"
      from no_close_after_replace [OF esc_code_close_of codes(1) codes(3) codes(4) this]
      have "\<not> occurs_at (replace_every (?c @ t) ?c ?o @ ?c) ?c j" .
      with o whole show False by (metis append.assoc)
    qed
    then have "length ?o + length ?body \<le> j"
      using whole by (metis length_append not_le)
    moreover have "j + length ?c \<le> length ?out"
      using o by (rule occurs_at_length)
    ultimately show ?thesis by simp
  qed
  with run show ?thesis by blast
qed

text \<open>
  Claim C4, as stated, fails. \<open>red(bold(ESC[39m x))\<close> keeps the \<open>ESC[39m\<close>, which
  begins at index 4 of the inner output, before the index 5 from which \<open>red\<close>
  searches. \<open>bold(red(dim("x")))\<close> holds \<open>ESC[22m\<close> before its end, since the
  replacement of \<open>bold\<close> begins with that code; \<open>reset\<close> replaces its close code
  with itself.
\<close>

theorem raw_close_inside_counterexample:
  "close_of red \<noteq> close_of bold \<and>
   Option.bind (style_fn (createColors True) bold (ESC # ''[39mx'')) (style_fn (createColors True) red) =
     Some (ESC # ''[31m'' @ ESC # ''[1m'' @ ESC # ''[39mx'' @ ESC # ''[22m'' @ ESC # ''[39m'') \<and>
   occurs_at (ESC # ''[31m'' @ ESC # ''[1m'' @ ESC # ''[39mx'' @ ESC # ''[22m'' @ ESC # ''[39m'')
     (close_of red) 9 \<and>
   9 < length (ESC # ''[31m'' @ ESC # ''[1m'' @ ESC # ''[39mx'' @ ESC # ''[22m'' @ ESC # ''[39m'') -
       length (close_of red) \<and>
   Option.bind
     (Option.bind (style_fn (createColors True) dim ''x'') (style_fn (createColors True) red))
     (style_fn (createColors True) bold) =
     Some (ESC # ''[1m'' @ ESC # ''[31m'' @ ESC # ''[2mx'' @ ESC # ''[22m'' @ ESC # ''[1m'' @
           ESC # ''[39m'' @ ESC # ''[22m'') \<and>
   occurs_at (ESC # ''[1m'' @ ESC # ''[31m'' @ ESC # ''[2mx'' @ ESC # ''[22m'' @ ESC # ''[1m'' @
           ESC # ''[39m'' @ ESC # ''[22m'')
     (close_of bold) 14 \<and>
   14 < length (ESC # ''[1m'' @ ESC # ''[31m'' @ ESC # ''[2mx'' @ ESC # ''[22m'' @ ESC # ''[1m'' @
           ESC # ''[39m'' @ ESC # ''[22m'') - length (close_of bold) \<and>
   Option.bind (style_fn (createColors True) red (ESC # ''[0m'')) (style_fn (createColors True) reset) =
     Some (ESC # ''[0m'' @ ESC # ''[31m'' @ ESC # ''[0m'' @ ESC # ''[39m'' @ ESC # ''[0m'') \<and>
   occurs_at (ESC # ''[0m'' @ ESC # ''[31m'' @ ESC # ''[0m'' @ ESC # ''[39m'' @ ESC # ''[0m'')
     (close_of reset) 9"
  by (simp add: style_fn_total indexOf_def open_of_def close_of_def replace_of_def occurs_at_def)

theorem nested_no_raw_close_witness:
  "style_fn (createColors True) bold (''x'' @ ESC # ''[39my'') =
     Some (ESC # ''[1mx'' @ ESC # ''[39my'' @ ESC # ''[22m'') \<and>
   indexOf (ESC # ''[1mx'' @ ESC # ''[39my'' @ ESC # ''[22m'') (close_of red) 0 = Some 5 \<and>
   style_fn (createColors True) red (ESC # ''[1mx'' @ ESC # ''[39my'' @ ESC # ''[22m'') =
     Some (ESC # ''[31m'' @ ESC # ''[1mx'' @ ESC # ''[31my'' @ ESC # ''[22m'' @ ESC # ''[39m'') \<and>
   \<not> occurs_at (ESC # ''[31m'' @ ESC # ''[1mx'' @ ESC # ''[31my'' @ ESC # ''[22m'' @ ESC # ''[39m'')
       (close_of red) 10"
proof -
  let ?t = "ESC # ''[1mx'' @ ESC # ''[39my'' @ ESC # ''[22m''"
  have b: "style_fn (createColors True) bold (''x'' @ ESC # ''[39my'') = Some ?t"
    by (simp add: style_fn_total indexOf_def open_of_def close_of_def replace_of_def)
  have i: "indexOf ?t (close_of red) 0 = Some 5"
    by (simp add: indexOf_def close_of_def)
  have h: "\<forall>j. occurs_at ?t (close_of red) j \<longrightarrow> length (open_of red) \<le> j"
  proof (intro allI impI)
    fix j assume o: "occurs_at ?t (close_of red) j"
    have "\<not> j < 5" using i o unfolding indexOf_Some_iff by auto
    then show "length (open_of red) \<le> j" by (simp add: open_of_def)
  qed
  from nested_no_raw_close [OF b h]
  obtain out where
    r: "style_fn (createColors True) red ?t = Some out" and
    e: "out = open_of red @ replace_every ?t (close_of red) (replace_of red) @ close_of red" and
    n: "\<forall>j. occurs_at out (close_of red) j \<longrightarrow> j = length out - length (close_of red)"
    by auto
  have v: "out = ESC # ''[31m'' @ ESC # ''[1mx'' @ ESC # ''[31my'' @ ESC # ''[22m'' @ ESC # ''[39m''"
    unfolding e by (simp add: open_of_def close_of_def replace_of_def)
  have "\<not> occurs_at out (close_of red) 10"
  proof
    assume "occurs_at out (close_of red) 10"
    with n have "10 = length out - length (close_of red)" by blast
    then show False by (simp add: v close_of_def)
  qed
  with b i r show ?thesis unfolding v by simp
qed

end
